theory Spec2Isabelle
  imports Main "HOL-Library.Word" "HOL-Library.Signed_Division" "HOL-Library.Multiset"
begin

section \<open>Data model of main.go\<close>

text \<open>
  Go's \<open>int64\<close> is a 64-bit word: \<open>+\<close> wraps around, \<open>sint\<close> reads the two's
  complement value, and the comparisons of the source are the signed ones.
\<close>

type_synonym int64 = "64 word"

text \<open>
  The bytes written to an \<open>io.Writer\<close> (a \<open>bytes.Buffer\<close> in the worker), in order.
\<close>

type_synonym Writer = string

text \<open>
  The values of Go's \<open>error\<close> that the program tells apart: \<open>io.EOF\<close>, the error made
  by \<open>errors.New("no query generators available")\<close>, and any other error with its
  message.
\<close>

datatype error = EOF | NoGenerators | OtherError string

text \<open>
  A run-time panic of the Go program: each kind is a place of the source that can panic.
\<close>

datatype panic =
    SliceBounds
  | IndexOutOfRange
  | DivideByZero
  | NilDereference
  | OffByOne

datatype 'a outcome = Return 'a | Panic panic

text \<open>
  The \<open>State\<close> interface is declared in a file that is not among the sources. A state
  is a snapshot of chain facts together with a reference to the process-wide random
  source; the facts are kept abstract (\<open>'c\<close>), and the random source is the sequence of
  values it will return and the number of values drawn so far.
\<close>

record RandSrc =
  outputs :: "nat \<Rightarrow> int64"
  drawn :: nat

text \<open>
  Modelled from the spec: the method \<open>RandInt64\<close> of \<open>State\<close>, whose body is not among
  the sources, draws the next value from the state's random source.
\<close>

definition RandInt64 :: "RandSrc \<Rightarrow> int64 \<times> RandSrc" where
  "RandInt64 s = (outputs s (drawn s), s\<lparr>drawn := drawn s + 1\<rparr>)"

text \<open>
  \<open>type Generator func(io.Writer, State) error\<close>: a generator receives the writer and
  the state, and returns its error (\<open>None\<close> is Go's \<open>nil\<close>), the writer after its
  writes and the random source after its draws.
\<close>

type_synonym 'c Generator = "Writer \<Rightarrow> 'c \<Rightarrow> RandSrc \<Rightarrow> error option \<times> Writer \<times> RandSrc"

text \<open>
  \<open>type RandomQuery struct\<close>. The field \<open>Generate\<close> is a function value, which can be
  \<open>nil\<close> (\<open>None\<close>): it is \<open>nil\<close> in the zero value \<open>RandomQuery{}\<close>.
\<close>

record 'c RandomQuery =
  Method :: string
  Weight :: int64
  Generate :: "'c Generator option"

definition zeroRandomQuery :: "'c RandomQuery" where
  "zeroRandomQuery = \<lparr>Method = [], Weight = 0, Generate = None\<rparr>"

text \<open>
  \<open>type generator struct\<close>. The \<open>nil\<close> slice of the zero value \<open>generator{}\<close> is the
  empty list; \<open>Add\<close> never leaves an empty slice that is not \<open>nil\<close>.
\<close>

record 'c generator =
  queries :: "'c RandomQuery list"
  totalWeight :: int64

definition emptyGenerator :: "'c generator" where
  "emptyGenerator = \<lparr>queries = [], totalWeight = 0\<rparr>"

section \<open>Add\<close>

text \<open>
  \<open>sort.Search(n, f)\<close> of the Go standard library: the binary search
  \<^verbatim>\<open>i, j := 0, n; for i < j { h := int(uint(i+j) >> 1); if !f(h) { i = h + 1 } else { j = h } }; return i\<close>.
  It calls \<open>f\<close> only at indices below \<open>n\<close>.
\<close>

function Search_loop :: "(nat \<Rightarrow> bool) \<Rightarrow> nat \<Rightarrow> nat \<Rightarrow> nat" where
  "Search_loop f i j =
     (if i < j then
        (let h = (i + j) div 2
         in if \<not> f h then Search_loop f (h + 1) j else Search_loop f i h)
      else i)"
  by pat_completeness auto
termination
  by (relation "measure (\<lambda>(f, i, j). j - i)") auto

declare Search_loop.simps [simp del]

definition Search :: "nat \<Rightarrow> (nat \<Rightarrow> bool) \<Rightarrow> nat" where
  "Search n f = Search_loop f 0 n"

text \<open>
  Go's builtin \<open>copy(dst, src)\<close> on slices: the first \<open>min (len dst) (len src)\<close> elements
  of \<open>dst\<close> are overwritten by those of \<open>src\<close>; the source is read as it was before the
  call, also when the two slices overlap.
\<close>

definition copy_slice :: "'a list \<Rightarrow> 'a list \<Rightarrow> 'a list" where
  "copy_slice dst src =
     (let n = min (length dst) (length src) in take n src @ drop n dst)"

text \<open>
  \<open>func (g *generator) Add(query RandomQuery)\<close>. The slice grows by one zero-valued
  element; the search runs over the grown slice with the predicate
  \<open>g.queries[i].Weight < query.Weight\<close>; \<open>copy\<close> shifts the elements from \<open>idx\<close> on by
  one place; the slot \<open>idx\<close> receives the query. The slice expression
  \<open>g.queries[idx+1:]\<close> panics when \<open>idx + 1\<close> is beyond the length, and the index
  expression \<open>g.queries[idx]\<close> when \<open>idx\<close> is.
\<close>

definition Add :: "'c RandomQuery \<Rightarrow> 'c generator \<Rightarrow> 'c generator outcome" where
  "Add query g =
     (let qs1 = (if queries g = [] then replicate 1 zeroRandomQuery
                 else queries g @ [zeroRandomQuery]);
          idx = Search (length qs1) (\<lambda>i. Weight (qs1 ! i) <s Weight query)
      in if length qs1 < idx + 1 then Panic SliceBounds
         else
           (let qs2 = take (idx + 1) qs1 @ copy_slice (drop (idx + 1) qs1) (drop idx qs1)
            in if length qs2 \<le> idx then Panic IndexOutOfRange
               else Return (g\<lparr>queries := qs2[idx := query],
                              totalWeight := totalWeight g + Weight query\<rparr>)))"

text \<open>A sequence of \<open>Add\<close> calls, in order; a panic ends the run.\<close>

fun AddAll :: "'c RandomQuery list \<Rightarrow> 'c generator \<Rightarrow> 'c generator outcome" where
  "AddAll [] g = Return g"
| "AddAll (q # qs) g = (case Add q g of Panic p \<Rightarrow> Panic p | Return g' \<Rightarrow> AddAll qs g')"

text \<open>
  The index that the search of \<open>Add\<close> returns for a query, and the order in which
  \<open>Add\<close> keeps the entries: no entry is heavier than an entry before it.
\<close>

definition insertion_index :: "'c RandomQuery \<Rightarrow> 'c generator \<Rightarrow> nat" where
  "insertion_index rq g =
     Search (length (queries g) + 1)
       (\<lambda>i. Weight ((queries g @ [zeroRandomQuery]) ! i) <s Weight rq)"

definition descending :: "'c RandomQuery list \<Rightarrow> bool" where
  "descending qs = sorted_wrt (\<lambda>a b. Weight b \<le>s Weight a) qs"

section \<open>Query\<close>

text \<open>
  Go's \<open>%\<close> on \<open>int64\<close>: the remainder of the division that truncates towards zero
  (\<open>smod\<close> on the integers), so its sign is the dividend's. The division by zero, a
  run-time panic in Go, is checked where \<open>rem64\<close> is used.
\<close>

definition rem64 :: "int64 \<Rightarrow> int64 \<Rightarrow> int64" where
  "rem64 a b = word_of_int (sint a smod sint b)"

text \<open>
  The loop \<open>for _, q := range g.queries\<close> of \<open>Query\<close>: \<open>current\<close> accumulates the
  weights, and the first entry with \<open>current >= weight\<close> is the selected one. The
  result is the position and the entry; \<open>None\<close> when the loop ends without a selection,
  where the source reaches its \<open>panic\<close>.
\<close>

fun walk :: "nat \<Rightarrow> int64 \<Rightarrow> int64 \<Rightarrow> 'c RandomQuery list \<Rightarrow> (nat \<times> 'c RandomQuery) option" where
  "walk i current weight [] = None"
| "walk i current weight (q # qs) =
     (let current' = current + Weight q
      in if weight \<le>s current' then Some (i, q) else walk (i + 1) current' weight qs)"

text \<open>
  \<open>func (g *generator) Query(w io.Writer, s State) error\<close>. The state \<open>s\<close> of the
  source is the pair of the chain facts \<open>c\<close> and the random source \<open>s\<close>. The result
  is the returned error, the writer and the random source after the call; \<open>Query\<close>
  assigns to no field of \<open>g\<close>. Calling the \<open>nil\<close> function of an entry is a panic.
\<close>

definition Query ::
  "'c generator \<Rightarrow> Writer \<Rightarrow> 'c \<Rightarrow> RandSrc \<Rightarrow> (error option \<times> Writer \<times> RandSrc) outcome" where
  "Query g w c s =
     (if length (queries g) = 0 then Return (Some NoGenerators, w, s)
      else
        (let (r, s') = RandInt64 s
         in if totalWeight g = 0 then Panic DivideByZero
            else
              (let weight = rem64 r (totalWeight g)
               in case walk 0 0 weight (queries g) of
                    None \<Rightarrow> Panic OffByOne
                  | Some (i, q) \<Rightarrow>
                      (case Generate q of
                         None \<Rightarrow> Panic NilDereference
                       | Some generate \<Rightarrow> Return (generate w c s')))))"

section \<open>The worker pool of main\<close>

text \<open>
  \<open>type Options struct\<close>. The rate limit is a \<open>float64\<close> that the program never
  computes with; its type is kept abstract (\<open>'f\<close>).
\<close>

record 'f Options =
  Methods :: "(string \<times> int64) list"
  Web3Endpoint :: string
  RateLimit :: 'f
  Version :: bool

text \<open>The part of \<open>http.Response\<close> that the program reads.\<close>

record Response =
  StatusCode :: int

text \<open>
  What \<open>http.Post\<close> returns: a pointer to the response (\<open>None\<close> is \<open>nil\<close>) and an
  error (\<open>None\<close> is \<open>nil\<close>). The transport is external: its answer to a call is an
  input of the model. When the request cannot be sent (no connection, a timeout), the
  Go library returns a \<open>nil\<close> response with the error.
\<close>

type_synonym PostResult = "Response option \<times> error option"

text \<open>A line written by \<open>log.Printf\<close> in \<open>query\<close>: the error and the status code.\<close>

datatype log_line = SendError error int

text \<open>
  The state shared by all goroutines: the global \<open>counter\<close>, the random source
  \<open>randSrc\<close>, the lines logged, the lines printed, and the requests handed to
  \<open>http.Post\<close> (endpoint and body), in order.
\<close>

record World =
  counter :: int64
  rand :: RandSrc
  logged :: "log_line list"
  printed :: "string list"
  posted :: "(string \<times> Writer) list"

text \<open>
  \<open>func query(endpoint string, queryBuf *bytes.Buffer)\<close>, with the answer of
  \<open>http.Post\<close> as an argument. The arguments of \<open>log.Printf\<close> are evaluated before
  the call: \<open>resp.StatusCode\<close> on a \<open>nil\<close> response is a nil-pointer panic.
\<close>

definition query :: "PostResult \<Rightarrow> string \<Rightarrow> Writer \<Rightarrow> World \<Rightarrow> World outcome" where
  "query post endpoint queryBuf wd =
     (let (resp, err) = post;
          wd1 = wd\<lparr>posted := posted wd @ [(endpoint, queryBuf)]\<rparr>
      in case err of
           None \<Rightarrow> Return (wd1\<lparr>counter := counter wd1 + 1\<rparr>)
         | Some e \<Rightarrow>
             (case resp of
                None \<Rightarrow> Panic NilDereference
              | Some r \<Rightarrow>
                  Return (wd1\<lparr>logged := logged wd1 @ [SendError e (StatusCode r)],
                              counter := counter wd1 + 1\<rparr>)))"

text \<open>
  The case that the \<open>select\<close> at the head of the worker's loop runs: a new state
  received from \<open>stateChannel\<close>, \<open>ctx.Done()\<close>, or \<open>default\<close>. Which one runs is
  decided by the channel, the context and the scheduler: it is an input of the model.
\<close>

datatype 'c select_case = Recv 'c | CtxDone | Default

record 'c worker_env =
  sel :: "'c select_case"
  post :: PostResult

text \<open>
  How one pass through the worker's loop ends: the loop goes on with the worker's buffer
  and state, the goroutine returns, the process exits through \<open>exit(code, ...)\<close>, or
  the process dies of a panic (no \<open>recover\<close> in the program).
\<close>

datatype 'c worker_step =
    Continue Writer 'c World
  | WorkerReturn World
  | ProcessExit int World
  | ProcessPanic panic

text \<open>The body of the worker's \<open>for\<close> loop (lines 121 to 144).\<close>

definition worker_iteration ::
  "'f Options \<Rightarrow> 'c generator \<Rightarrow> 'c worker_env \<Rightarrow> Writer \<Rightarrow> 'c \<Rightarrow> World \<Rightarrow> 'c worker_step" where
  "worker_iteration options gen env buf state wd =
     (case sel env of
        CtxDone \<Rightarrow> WorkerReturn wd
      | _ \<Rightarrow>
          (let state1 = (case sel env of Recv c \<Rightarrow> c | _ \<Rightarrow> state)
           in case Query gen buf state1 (rand wd) of
                Panic p \<Rightarrow> ProcessPanic p
              | Return (err, buf1, rs) \<Rightarrow>
                  (let wd1 = wd\<lparr>rand := rs\<rparr>
                   in if err = Some EOF then
                        WorkerReturn (wd1\<lparr>printed := printed wd1 @ [''query gen EOF'']\<rparr>)
                      else if err \<noteq> None then ProcessExit 2 wd1
                      else
                        (case query (post env) (Web3Endpoint options) buf1 wd1 of
                           Panic p \<Rightarrow> ProcessPanic p
                         | Return wd2 \<Rightarrow> Continue [] state1 wd2))))"

text \<open>
  The worker's loop, run on the inputs of its successive passes. With no input left
  the worker is still in its loop.
\<close>

fun worker_loop ::
  "'f Options \<Rightarrow> 'c generator \<Rightarrow> 'c worker_env list \<Rightarrow> Writer \<Rightarrow> 'c \<Rightarrow> World \<Rightarrow> 'c worker_step" where
  "worker_loop options gen [] buf state wd = Continue buf state wd"
| "worker_loop options gen (env # envs) buf state wd =
     (case worker_iteration options gen env buf state wd of
        Continue buf' state' wd' \<Rightarrow> worker_loop options gen envs buf' state' wd'
      | WorkerReturn wd' \<Rightarrow> WorkerReturn wd'
      | ProcessExit code wd' \<Rightarrow> ProcessExit code wd'
      | ProcessPanic p \<Rightarrow> ProcessPanic p)"

section \<open>Example inputs\<close>

text \<open>A generator that writes the name of its method and returns \<open>nil\<close>.\<close>

definition writeMethod :: "string \<Rightarrow> unit Generator" where
  "writeMethod m w c s = (None, w @ m, s)"

definition entry :: "string \<Rightarrow> int64 \<Rightarrow> unit RandomQuery" where
  "entry m weight = \<lparr>Method = m, Weight = weight, Generate = Some (writeMethod m)\<rparr>"

text \<open>
  The registry that \<open>Add\<close> builds from \<open>A\<close> with weight 100 and then \<open>B\<close> with
  weight 300, and the one it builds from \<open>A\<close> and then \<open>B\<close>, both with weight 1.
\<close>

definition registryAB :: "unit generator" where
  "registryAB = \<lparr>queries = [entry ''B'' 300, entry ''A'' 100], totalWeight = 400\<rparr>"

definition registry11 :: "unit generator" where
  "registry11 = \<lparr>queries = [entry ''A'' 1, entry ''B'' 1], totalWeight = 2\<rparr>"

text \<open>A generator that returns \<open>io.EOF\<close>, one that returns another error, and their registries.\<close>

definition eofGenerator :: "unit Generator" where
  "eofGenerator w c s = (Some EOF, w, s)"

definition failingGenerator :: "unit Generator" where
  "failingGenerator w c s = (Some (OtherError ''bad request''), w, s)"

definition registryEOF :: "unit generator" where
  "registryEOF =
     \<lparr>queries = [\<lparr>Method = ''E'', Weight = 1, Generate = Some eofGenerator\<rparr>], totalWeight = 1\<rparr>"

definition registryFailing :: "unit generator" where
  "registryFailing =
     \<lparr>queries = [\<lparr>Method = ''F'', Weight = 1, Generate = Some failingGenerator\<rparr>],
      totalWeight = 1\<rparr>"

text \<open>A random source that returns 0, 1, 2, ...\<close>

definition countingSrc :: RandSrc where
  "countingSrc = \<lparr>outputs = (\<lambda>n. of_nat n), drawn = 0\<rparr>"

definition world0 :: World where
  "world0 = \<lparr>counter = 0, rand = countingSrc, logged = [], printed = [], posted = []\<rparr>"

text \<open>Options whose rate limit is a whole number.\<close>

definition options0 :: "int Options" where
  "options0 = \<lparr>Methods = [(''A'', 100), (''B'', 300)], Web3Endpoint = ''http://localhost:8545'',
     RateLimit = 0, Version = False\<rparr>"

text \<open>
  Two answers of \<open>http.Post\<close>: the connection is refused (no response, an error), and a
  response with status 200.
\<close>

definition refused :: PostResult where
  "refused = (None, Some (OtherError ''connection refused''))"

definition ok200 :: PostResult where
  "ok200 = (Some \<lparr>StatusCode = 200\<rparr>, None)"

section \<open>The binary search and the insertion of Add\<close>

lemma Search_loop_bounds: "i \<le> j \<Longrightarrow> i \<le> Search_loop f i j \<and> Search_loop f i j \<le> j"
proof (induction f i j rule: Search_loop.induct)
  case (1 f i j)
  show ?case
  proof (cases "i < j")
    case False
    then have "Search_loop f i j = i" by (subst Search_loop.simps) simp
    with 1(3) show ?thesis by simp
  next
    case True
    let ?h = "(i + j) div 2"
    from True have h: "i \<le> ?h" "?h < j" by auto
    show ?thesis
    proof (cases "f ?h")
      case True
      with 1(2)[OF \<open>i < j\<close> refl] h
      have "i \<le> Search_loop f i ?h \<and> Search_loop f i ?h \<le> ?h" by simp
      with True \<open>i < j\<close> h show ?thesis by (simp add: Search_loop.simps [of f i j] Let_def)
    next
      case False
      with 1(1)[OF \<open>i < j\<close> refl] h
      have "?h + 1 \<le> Search_loop f (?h + 1) j \<and> Search_loop f (?h + 1) j \<le> j" by simp
      with False \<open>i < j\<close> h show ?thesis by (simp add: Search_loop.simps [of f i j] Let_def)
    qed
  qed
qed

text \<open>
  When the predicate holds at the last index, the search returns an index of the slice:
  the search interval can only lose its upper end at an index where the predicate holds.
\<close>

lemma Search_loop_last: "i < j \<Longrightarrow> f (j - 1) \<Longrightarrow> Search_loop f i j < j"
proof (induction f i j rule: Search_loop.induct)
  case (1 f i j)
  let ?h = "(i + j) div 2"
  from 1(3) have h: "i \<le> ?h" "?h < j" by auto
  show ?case
  proof (cases "f ?h")
    case True
    from Search_loop_bounds [OF h(1), of f] have "Search_loop f i ?h \<le> ?h" by simp
    with True 1(3) h show ?thesis by (simp add: Search_loop.simps [of f i j] Let_def)
  next
    case False
    with 1(4) have "?h \<noteq> j - 1" by auto
    with h have lt: "?h + 1 < j" by linarith
    from 1(1)[OF \<open>i < j\<close> refl False lt 1(4)] have "Search_loop f (?h + 1) j < j" .
    with False 1(3) show ?thesis by (simp add: Search_loop.simps [of f i j] Let_def)
  qed
qed

text \<open>The grown slice after \<open>copy\<close> and the assignment to the slot \<open>idx\<close>.\<close>

lemma shift_insert:
  assumes "idx \<le> length xs"
  shows "(take (idx + 1) (xs @ [z]) @ copy_slice (drop (idx + 1) (xs @ [z])) (drop idx (xs @ [z])))
           [idx := q]
         = take idx xs @ q # drop idx xs"
proof -
  have c: "copy_slice (drop (idx + 1) (xs @ [z])) (drop idx (xs @ [z])) = drop idx xs"
    using assms by (simp add: copy_slice_def min_def)
  have t: "take (idx + 1) (xs @ [z]) = take idx xs @ [(xs @ [z]) ! idx]"
    using assms take_Suc_conv_app_nth [of idx "xs @ [z]"] by simp
  show ?thesis using assms unfolding c t by (simp add: list_update_append)
qed

lemma shift_length:
  assumes "idx \<le> length xs"
  shows "length (take (idx + 1) (xs @ [z]) @ copy_slice (drop (idx + 1) (xs @ [z])) (drop idx (xs @ [z])))
         = length xs + 1"
  using assms by (auto simp add: copy_slice_def min_def)

lemma grown_slice:
  "(if queries g = [] then replicate 1 zeroRandomQuery else queries g @ [zeroRandomQuery])
   = queries g @ [zeroRandomQuery]"
  by simp

text \<open>Whenever \<open>Add\<close> returns, it has inserted the query at some position.\<close>

lemma Add_Return:
  assumes "Add rq g = Return g'"
  shows "\<exists>idx \<le> length (queries g).
           queries g' = take idx (queries g) @ rq # drop idx (queries g)
         \<and> totalWeight g' = totalWeight g + Weight rq"
proof -
  let ?qs1 = "queries g @ [zeroRandomQuery :: 'a RandomQuery]"
  let ?idx = "Search (length ?qs1) (\<lambda>i. Weight (?qs1 ! i) <s Weight rq)"
  have idx: "?idx \<le> length (queries g)"
    using assms unfolding Add_def grown_slice Let_def by (simp split: if_splits)
  have "g' = g\<lparr>queries := take ?idx (queries g) @ rq # drop ?idx (queries g),
               totalWeight := totalWeight g + Weight rq\<rparr>"
    using assms idx
    unfolding Add_def grown_slice Let_def shift_insert [OF idx] shift_length [OF idx]
    by simp
  with idx show ?thesis by auto
qed

text \<open>
  With a positive weight the predicate holds at the zero-valued last element, so the
  search stays inside the slice and \<open>Add\<close> returns.
\<close>

lemma Add_positive:
  assumes "0 <s Weight rq"
  shows "\<exists>g'. Add rq g = Return g'"
proof -
  let ?qs1 = "queries g @ [zeroRandomQuery :: 'a RandomQuery]"
  let ?f = "\<lambda>i. Weight (?qs1 ! i) <s Weight rq"
  let ?idx = "Search (length ?qs1) ?f"
  have "?f (length ?qs1 - 1)" using assms by (simp add: zeroRandomQuery_def)
  then have "?idx < length ?qs1" unfolding Search_def by (intro Search_loop_last) simp_all
  then have idx: "?idx \<le> length (queries g)" by simp
  show ?thesis
    unfolding Add_def grown_slice Let_def shift_insert [OF idx] shift_length [OF idx]
    using idx by simp
qed

lemma Add_mset:
  assumes "Add rq g = Return g'"
  shows "mset (queries g') = add_mset rq (mset (queries g))"
proof -
  from Add_Return [OF assms] obtain idx where
    "queries g' = take idx (queries g) @ rq # drop idx (queries g)" by blast
  then have "mset (queries g') =
      add_mset rq (mset (take idx (queries g)) + mset (drop idx (queries g)))"
    by simp
  moreover have "mset (take idx (queries g)) + mset (drop idx (queries g)) = mset (queries g)"
    by (metis append_take_drop_id mset_append)
  ultimately show ?thesis by simp
qed

lemma Add_total:
  assumes "Add rq g = Return g'" and "totalWeight g = sum_list (map Weight (queries g))"
  shows "totalWeight g' = sum_list (map Weight (queries g'))"
proof -
  from Add_Return [OF assms(1)] obtain idx where
    q: "queries g' = take idx (queries g) @ rq # drop idx (queries g)"
    and t: "totalWeight g' = totalWeight g + Weight rq" by blast
  have "sum_list (map Weight (queries g')) =
        sum_list (map Weight (take idx (queries g))) + sum_list (map Weight (drop idx (queries g)))
        + Weight rq"
    unfolding q by simp
  moreover have
    "sum_list (map Weight (take idx (queries g))) + sum_list (map Weight (drop idx (queries g)))
     = sum_list (map Weight (queries g))"
    by (metis append_take_drop_id map_append sum_list_append)
  ultimately show ?thesis using t assms(2) by simp
qed

lemma AddAll_invariant:
  assumes "AddAll qs g0 = Return g" and "totalWeight g0 = sum_list (map Weight (queries g0))"
  shows "mset (queries g) = mset qs + mset (queries g0)
       \<and> totalWeight g = sum_list (map Weight (queries g))"
  using assms
proof (induction qs arbitrary: g0)
  case Nil
  then show ?case by simp
next
  case (Cons q qs)
  from Cons.prems(1) obtain g1 where a: "Add q g0 = Return g1" and r: "AddAll qs g1 = Return g"
    by (auto split: outcome.splits)
  from Cons.IH [OF r Add_total [OF a Cons.prems(2)]] Add_mset [OF a]
  show ?case by simp
qed

lemma AddAll_positive:
  assumes "\<forall>q \<in> set qs. 0 <s Weight q"
  shows "\<exists>g. AddAll qs g0 = Return g"
  using assms
proof (induction qs arbitrary: g0)
  case Nil
  then show ?case by simp
next
  case (Cons q qs)
  from Cons.prems have "0 <s Weight q" by simp
  from Add_positive [OF this, of g0] obtain g1 where "Add q g0 = Return g1" by blast
  with Cons.IH [of g1] Cons.prems show ?case by simp
qed

lemma AddAll_registryAB:
  "AddAll [entry ''A'' 100, entry ''B'' 300] emptyGenerator = Return registryAB"
  by (simp add: Add_def Search_def Search_loop.simps emptyGenerator_def entry_def
      registryAB_def zeroRandomQuery_def copy_slice_def word_sless_alt)

text \<open>
  C10. After any sequence of \<open>Add\<close> calls on the empty registry that returns, the
  registry holds exactly the added queries, as a multiset, and \<open>totalWeight\<close> is the
  sum (in \<open>int64\<close>) of the weights of the stored entries; and when all the weights are
  positive, all the calls return.
\<close>

theorem AddAll_keeps_queries_and_total:
  "(\<forall>g. AddAll qs emptyGenerator = Return g \<longrightarrow>
        mset (queries g) = mset qs \<and> totalWeight g = sum_list (map Weight (queries g)))
   \<and> ((\<forall>q \<in> set qs. 0 <s Weight q) \<longrightarrow> (\<exists>g. AddAll qs emptyGenerator = Return g))"
proof (intro conjI allI impI)
  fix g :: "'a generator"
  assume r: "AddAll qs emptyGenerator = Return g"
  have e: "totalWeight (emptyGenerator :: 'a generator)
      = sum_list (map Weight (queries (emptyGenerator :: 'a generator)))"
    by (simp add: emptyGenerator_def)
  from AddAll_invariant [OF r e] show "mset (queries g) = mset qs"
    by (simp add: emptyGenerator_def)
  from AddAll_invariant [OF r e] show "totalWeight g = sum_list (map Weight (queries g))"
    by simp
next
  assume "\<forall>q \<in> set qs. 0 <s Weight q"
  then show "\<exists>g. AddAll qs (emptyGenerator :: 'a generator) = Return g"
    by (rule AddAll_positive)
qed

theorem AddAll_keeps_queries_and_total_witness:
  "AddAll [entry ''A'' 100, entry ''B'' 300] emptyGenerator = Return registryAB
   \<and> 0 <s Weight (entry ''A'' 100) \<and> 0 <s Weight (entry ''B'' 300)
   \<and> mset (queries registryAB) = mset [entry ''A'' 100, entry ''B'' 300]
   \<and> totalWeight registryAB = sum_list (map Weight (queries registryAB))"
proof -
  have p: "0 <s Weight (entry ''A'' 100) \<and> 0 <s Weight (entry ''B'' 300)"
    by (simp add: entry_def word_sless_alt)
  from AddAll_keeps_queries_and_total [of "[entry ''A'' 100, entry ''B'' 300]"]
  have "mset (queries registryAB) = mset [entry ''A'' 100, entry ''B'' 300]
      \<and> totalWeight registryAB = sum_list (map Weight (queries registryAB))"
    using AddAll_registryAB by blast
  with p AddAll_registryAB show ?thesis by blast
qed

section \<open>The order kept by Add\<close>

text \<open>
  On a predicate that, once true, stays true up to \<open>n\<close>, the binary search returns
  the least index at which it holds (or \<open>n\<close>).
\<close>

lemma Search_loop_least:
  assumes "\<forall>a b. a \<le> b \<and> b < n \<and> f a \<longrightarrow> f b"
    and "i \<le> j" and "j \<le> n" and "\<forall>k<i. \<not> f k" and "j < n \<longrightarrow> f j"
  shows "(\<forall>k < Search_loop f i j. \<not> f k) \<and> (Search_loop f i j < n \<longrightarrow> f (Search_loop f i j))"
  using assms
proof (induction f i j rule: Search_loop.induct)
  case (1 f i j)
  note mono = "1.prems"(1)
  show ?case
  proof (cases "i < j")
    case False
    then have "Search_loop f i j = i" by (subst Search_loop.simps) simp
    moreover from False "1.prems"(2) have "i = j" by simp
    ultimately show ?thesis using "1.prems"(4,5) by simp
  next
    case True
    let ?h = "(i + j) div 2"
    from True have h: "i \<le> ?h" "?h < j" by auto
    show ?thesis
    proof (cases "f ?h")
      case fh: True
      have "(\<forall>k < Search_loop f i ?h. \<not> f k)
          \<and> (Search_loop f i ?h < n \<longrightarrow> f (Search_loop f i ?h))"
      proof (rule "1.IH"(2) [OF True refl _ mono])
        show "\<not> \<not> f ?h" using fh by simp
        show "i \<le> ?h" by (rule h(1))
        show "?h \<le> n" using h(2) "1.prems"(3) by simp
        show "\<forall>k<i. \<not> f k" by (rule "1.prems"(4))
        show "?h < n \<longrightarrow> f ?h" using fh by simp
      qed
      moreover have "Search_loop f i j = Search_loop f i ?h"
        using fh True by (subst Search_loop.simps) (simp add: Let_def)
      ultimately show ?thesis by simp
    next
      case nfh: False
      have below: "\<forall>k < ?h + 1. \<not> f k"
      proof (intro allI impI)
        fix k assume "k < ?h + 1"
        then have "k \<le> ?h" by simp
        moreover have "?h < n" using h "1.prems"(3) by simp
        ultimately show "\<not> f k" using mono nfh by blast
      qed
      have "(\<forall>k < Search_loop f (?h + 1) j. \<not> f k)
          \<and> (Search_loop f (?h + 1) j < n \<longrightarrow> f (Search_loop f (?h + 1) j))"
      proof (rule "1.IH"(1) [OF True refl nfh mono])
        show "?h + 1 \<le> j" using h(2) by simp
        show "j \<le> n" by (rule "1.prems"(3))
        show "\<forall>k < ?h + 1. \<not> f k" by (rule below)
        show "j < n \<longrightarrow> f j" by (rule "1.prems"(5))
      qed
      moreover have "Search_loop f i j = Search_loop f (?h + 1) j"
        using nfh True by (subst Search_loop.simps) (simp add: Let_def)
      ultimately show ?thesis by simp
    qed
  qed
qed

lemma Add_at_insertion_index:
  assumes "insertion_index rq g \<le> length (queries g)"
  shows "Add rq g = Return (g\<lparr>queries := take (insertion_index rq g) (queries g) @ rq
                                  # drop (insertion_index rq g) (queries g),
                                totalWeight := totalWeight g + Weight rq\<rparr>)"
proof -
  let ?qs1 = "queries g @ [zeroRandomQuery :: 'a RandomQuery]"
  let ?idx = "Search (length ?qs1) (\<lambda>i. Weight (?qs1 ! i) <s Weight rq)"
  have idx: "?idx \<le> length (queries g)" using assms by (simp add: insertion_index_def)
  have e: "insertion_index rq g = ?idx" by (simp add: insertion_index_def)
  show ?thesis
    unfolding Add_def grown_slice Let_def shift_insert [OF idx] shift_length [OF idx] e
    using idx by simp
qed

lemma insertion_index_positive:
  assumes "0 <s Weight rq"
  shows "insertion_index rq g \<le> length (queries g)"
proof -
  let ?qs1 = "queries g @ [zeroRandomQuery :: 'a RandomQuery]"
  let ?f = "\<lambda>i. Weight (?qs1 ! i) <s Weight rq"
  have "?f (length ?qs1 - 1)" using assms by (simp add: zeroRandomQuery_def)
  then have "Search_loop ?f 0 (length ?qs1) < length ?qs1" by (intro Search_loop_last) simp_all
  then show ?thesis by (simp add: insertion_index_def Search_def)
qed

lemma insertion_index_splits:
  assumes desc: "descending (queries g)" and pos: "0 <s Weight rq"
  shows "(\<forall>k < insertion_index rq g. Weight rq \<le>s Weight (queries g ! k))
       \<and> (\<forall>k. insertion_index rq g \<le> k \<and> k < length (queries g)
              \<longrightarrow> Weight (queries g ! k) <s Weight rq)"
proof -
  let ?xs = "queries g"
  let ?qs1 = "?xs @ [zeroRandomQuery :: 'a RandomQuery]"
  let ?f = "\<lambda>i. Weight (?qs1 ! i) <s Weight rq"
  let ?n = "length ?xs + 1"
  have last: "?f (length ?xs)" using pos by (simp add: zeroRandomQuery_def)
  have mono: "?f b" if "a \<le> b" "b < ?n" "?f a" for a b
  proof (cases "b < length ?xs")
    case False
    with that(2) have "b = length ?xs" by simp
    with last show ?thesis by simp
  next
    case True
    show ?thesis
    proof (cases "a = b")
      case True
      with that(3) show ?thesis by simp
    next
      case False
      with that(1) have "a < b" by simp
      from sorted_wrt_nth_less [OF desc [unfolded descending_def] \<open>a < b\<close> True]
      have "Weight (?xs ! b) \<le>s Weight (?xs ! a)" .
      moreover from that(3) \<open>a < b\<close> True have "Weight (?xs ! a) <s Weight rq"
        by (simp add: nth_append)
      ultimately show ?thesis using True by (simp add: nth_append word_sle_eq word_sless_alt)
    qed
  qed
  have L: "(\<forall>k < Search_loop ?f 0 ?n. \<not> ?f k)
         \<and> (Search_loop ?f 0 ?n < ?n \<longrightarrow> ?f (Search_loop ?f 0 ?n))"
  proof (rule Search_loop_least [where n = ?n])
    show "\<forall>a b. a \<le> b \<and> b < ?n \<and> ?f a \<longrightarrow> ?f b" using mono by blast
  qed simp_all
  have idx: "insertion_index rq g = Search_loop ?f 0 ?n"
    by (simp add: insertion_index_def Search_def)
  have le: "insertion_index rq g \<le> length ?xs" using pos by (rule insertion_index_positive)
  show ?thesis
  proof (intro conjI allI impI)
    fix k assume k: "k < insertion_index rq g"
    with L idx have "\<not> ?f k" by simp
    moreover from k le have "k < length ?xs" by simp
    ultimately show "Weight rq \<le>s Weight (?xs ! k)"
      by (simp add: nth_append word_sle_eq word_sless_alt)
  next
    fix k assume k: "insertion_index rq g \<le> k \<and> k < length ?xs"
    then have "insertion_index rq g < ?n" by simp
    with L idx have "?f (insertion_index rq g)" by simp
    with mono [of "insertion_index rq g" k] k have "?f k" by simp
    with k show "Weight (?xs ! k) <s Weight rq" by (simp add: nth_append)
  qed
qed

lemma Add_descending:
  assumes desc: "descending (queries g)" and pos: "0 <s Weight rq" and add: "Add rq g = Return g'"
  shows "descending (queries g')"
proof -
  let ?xs = "queries g"
  let ?i = "insertion_index rq g"
  have le: "?i \<le> length ?xs" using pos by (rule insertion_index_positive)
  from Add_at_insertion_index [OF le] add
  have q: "queries g' = take ?i ?xs @ rq # drop ?i ?xs" by simp
  from insertion_index_splits [OF desc pos]
  have before: "\<forall>k < ?i. Weight rq \<le>s Weight (?xs ! k)"
    and after: "\<forall>k. ?i \<le> k \<and> k < length ?xs \<longrightarrow> Weight (?xs ! k) <s Weight rq"
    by simp_all
  have t: "\<forall>x \<in> set (take ?i ?xs). Weight rq \<le>s Weight x"
  proof
    fix x assume "x \<in> set (take ?i ?xs)"
    then obtain k where "k < length (take ?i ?xs)" "take ?i ?xs ! k = x"
      by (auto simp add: in_set_conv_nth)
    with before le show "Weight rq \<le>s Weight x" by auto
  qed
  have d: "\<forall>y \<in> set (drop ?i ?xs). Weight y <s Weight rq"
  proof
    fix y assume "y \<in> set (drop ?i ?xs)"
    then obtain k where k: "k < length (drop ?i ?xs)" "drop ?i ?xs ! k = y"
      by (auto simp add: in_set_conv_nth)
    then have "?i + k < length ?xs" "?xs ! (?i + k) = y" using le by auto
    with after [rule_format, of "?i + k"] show "Weight y <s Weight rq" by simp
  qed
  have s1: "descending (take ?i ?xs)" and s2: "descending (drop ?i ?xs)"
    using desc unfolding descending_def by simp_all
  have cross: "\<forall>x \<in> set (take ?i ?xs). \<forall>y \<in> set (drop ?i ?xs). Weight y \<le>s Weight x"
  proof (intro ballI)
    fix x y assume "x \<in> set (take ?i ?xs)" "y \<in> set (drop ?i ?xs)"
    with t d have "sint (Weight rq) \<le> sint (Weight x)" "sint (Weight y) < sint (Weight rq)"
      by (simp_all add: word_sle_eq word_sless_alt)
    then show "Weight y \<le>s Weight x" by (simp add: word_sle_eq)
  qed
  have d': "\<forall>y \<in> set (drop ?i ?xs). Weight y \<le>s Weight rq"
    using d by (auto simp add: word_sle_eq word_sless_alt intro: less_imp_le)
  have "sorted_wrt (\<lambda>a b. Weight b \<le>s Weight a) (take ?i ?xs @ rq # drop ?i ?xs)"
    unfolding sorted_wrt_append
    using s1 s2 t d' cross by (simp add: descending_def)
  then show ?thesis unfolding q descending_def .
qed

lemma AddAll_descending:
  assumes "descending (queries g0)" and "\<forall>q \<in> set qs. 0 <s Weight q" and "AddAll qs g0 = Return g"
  shows "descending (queries g)"
  using assms
proof (induction qs arbitrary: g0)
  case Nil
  then show ?case by simp
next
  case (Cons q qs)
  from Cons.prems(3) obtain g1 where a: "Add q g0 = Return g1" and r: "AddAll qs g1 = Return g"
    by (auto split: outcome.splits)
  from Cons.prems(2) have "0 <s Weight q" by simp
  from Add_descending [OF Cons.prems(1) this a] have "descending (queries g1)" .
  from Cons.IH [OF this _ r] Cons.prems(2) show ?case by simp
qed

lemma AddAll_registry11:
  "AddAll [entry ''A'' 1, entry ''B'' 1] emptyGenerator = Return registry11"
  by (simp add: Add_def Search_def Search_loop.simps emptyGenerator_def entry_def
      registry11_def zeroRandomQuery_def copy_slice_def word_sless_alt)

text \<open>
  C3. The specification: after every \<open>Add\<close> with a positive weight the entries are
  sorted ascending by weight. The code at the input \<open>A\<close> (weight 100), then \<open>B\<close> (weight
  300): \<open>Add\<close> puts \<open>B\<close> before \<open>A\<close>, and the entries are not ascending. (They are
  descending after every call: \<open>AddAll_descending\<close>.)
\<close>

theorem Add_not_ascending:
  "AddAll [entry ''A'' 100, entry ''B'' 300] emptyGenerator = Return registryAB
   \<and> map Weight (queries registryAB) = [300, 100]
   \<and> \<not> sorted_wrt (\<lambda>a b. Weight a \<le>s Weight b) (queries registryAB)"
  using AddAll_registryAB by (simp add: registryAB_def entry_def word_sle_eq)

section \<open>The total weight read as an integer\<close>

lemma sint_sum_list:
  fixes ws :: "int64 list"
  assumes "\<forall>w \<in> set ws. 0 \<le> sint w" and "(\<Sum>w\<leftarrow>ws. sint w) < 2 ^ 63"
  shows "sint (sum_list ws) = (\<Sum>w\<leftarrow>ws. sint w)"
  using assms
proof (induction ws)
  case Nil
  then show ?case by simp
next
  case (Cons w ws)
  have nn: "0 \<le> (\<Sum>w\<leftarrow>ws. sint w)" using Cons.prems(1) by (intro sum_list_nonneg) auto
  with Cons.prems have "(\<Sum>w\<leftarrow>ws. sint w) < 2 ^ 63" "0 \<le> sint w" by simp_all
  with Cons have ih: "sint (sum_list ws) = (\<Sum>w\<leftarrow>ws. sint w)" by simp
  have "sint (w + sum_list ws) = signed_take_bit 63 (sint w + sint (sum_list ws))"
    by (simp add: sint_word_ariths)
  also have "\<dots> = sint w + sint (sum_list ws)"
    using Cons.prems nn ih by (intro signed_take_bit_int_eq_self) simp_all
  finally show ?case using ih by simp
qed

text \<open>
  When the weights added are positive and their sum is below \<open>2 ^ 63\<close>, nothing has
  wrapped around: \<open>totalWeight\<close> is the sum of the stored weights as integers too.
\<close>

lemma AddAll_total_sint:
  assumes r: "AddAll qs emptyGenerator = Return g"
    and pos: "\<forall>q \<in> set qs. 0 <s Weight q"
    and small: "(\<Sum>q\<leftarrow>qs. sint (Weight q)) < 2 ^ 63"
  shows "sint (totalWeight g) = (\<Sum>q\<leftarrow>queries g. sint (Weight q))"
proof -
  have e: "totalWeight (emptyGenerator :: 'a generator)
      = sum_list (map Weight (queries (emptyGenerator :: 'a generator)))"
    by (simp add: emptyGenerator_def)
  from AddAll_invariant [OF r e]
  have m: "mset (queries g) = mset qs"
    and t: "totalWeight g = sum_list (map Weight (queries g))"
    by (simp_all add: emptyGenerator_def)
  from m have "set (queries g) = set qs" by (rule mset_eq_setD)
  with pos have p: "\<forall>w \<in> set (map Weight (queries g)). 0 \<le> sint w"
    by (auto simp add: word_sless_alt intro: less_imp_le)
  have "(\<Sum>q\<leftarrow>queries g. sint (Weight q))
      = sum_mset (image_mset (\<lambda>q. sint (Weight q)) (mset (queries g)))"
    by (simp flip: sum_mset_sum_list)
  also have "\<dots> = (\<Sum>q\<leftarrow>qs. sint (Weight q))"
    unfolding m by (simp flip: sum_mset_sum_list)
  finally have s: "(\<Sum>q\<leftarrow>queries g. sint (Weight q)) = (\<Sum>q\<leftarrow>qs. sint (Weight q))" .
  have "(\<Sum>w\<leftarrow>map Weight (queries g). sint w) = (\<Sum>q\<leftarrow>queries g. sint (Weight q))"
    by (simp add: comp_def)
  with s small have "(\<Sum>w\<leftarrow>map Weight (queries g). sint w) < 2 ^ 63" by simp
  from sint_sum_list [OF p this] t show ?thesis by (simp add: comp_def)
qed

section \<open>Selection by Query\<close>

lemma sint_add_no_overflow:
  fixes a b :: int64
  assumes "0 \<le> sint a" and "0 \<le> sint b" and "sint a + sint b < 2 ^ 63"
  shows "sint (a + b) = sint a + sint b"
proof -
  have "sint (a + b) = signed_take_bit 63 (sint a + sint b)"
    by (simp add: sint_word_ariths)
  also have "\<dots> = sint a + sint b"
    using assms by (intro signed_take_bit_int_eq_self) simp_all
  finally show ?thesis .
qed

text \<open>For a non-negative dividend and a positive divisor, \<open>%\<close> is the usual remainder.\<close>

lemma sint_rem64:
  assumes "0 \<le> sint r" and "0 < sint t"
  shows "sint (rem64 r t) = sint r mod sint t"
proof -
  have m: "sint r smod sint t = sint r mod sint t"
    using assms by (simp add: signed_modulo_int_def sgn_if)
  have "0 \<le> sint r mod sint t" "sint r mod sint t < sint t"
    using assms by simp_all
  moreover have "sint t < 2 ^ 63" using sint_lt [of t] by simp
  ultimately have "signed_take_bit 63 (sint r mod sint t) = sint r mod sint t"
    by (intro signed_take_bit_int_eq_self) simp_all
  then show ?thesis unfolding rem64_def m by (simp add: sint_sbintrunc')
qed

text \<open>
  The loop invariant of the walk: \<open>current\<close> is at most the drawn value, and the drawn
  value is below \<open>current\<close> plus the weights still to come, which do not overflow.
\<close>

lemma walk_finds:
  assumes "\<forall>q \<in> set qs. 0 < sint (Weight q)"
    and "0 \<le> sint current"
    and "sint current \<le> sint weight"
    and "sint weight < sint current + (\<Sum>q\<leftarrow>qs. sint (Weight q))"
    and "sint current + (\<Sum>q\<leftarrow>qs. sint (Weight q)) < 2 ^ 63"
  shows "\<exists>j < length qs. walk i current weight qs = Some (i + j, qs ! j)"
  using assms
proof (induction qs arbitrary: i current)
  case Nil
  then show ?case by simp
next
  case (Cons q qs)
  let ?c = "current + Weight q"
  have pos: "0 < sint (Weight q)" using Cons.prems(1) by simp
  have rest: "0 \<le> (\<Sum>q\<leftarrow>qs. sint (Weight q))"
    using Cons.prems(1) by (intro sum_list_nonneg) auto
  have c: "sint ?c = sint current + sint (Weight q)"
    using Cons.prems(2,5) pos rest by (intro sint_add_no_overflow) simp_all
  show ?case
  proof (cases "weight \<le>s ?c")
    case True
    then have "walk i current weight (q # qs) = Some (i + 0, (q # qs) ! 0)" by simp
    then show ?thesis by blast
  next
    case False
    then have lt: "sint ?c < sint weight" by (simp add: word_sle_eq)
    have "\<exists>j < length qs. walk (i + 1) ?c weight qs = Some (i + 1 + j, qs ! j)"
    proof (rule Cons.IH)
      show "\<forall>q \<in> set qs. 0 < sint (Weight q)" using Cons.prems(1) by simp
      show "0 \<le> sint ?c" using c pos Cons.prems(2) by simp
      show "sint ?c \<le> sint weight" using lt by simp
      show "sint weight < sint ?c + (\<Sum>q\<leftarrow>qs. sint (Weight q))"
        using c Cons.prems(4) by simp
      show "sint ?c + (\<Sum>q\<leftarrow>qs. sint (Weight q)) < 2 ^ 63"
        using c Cons.prems(5) by simp
    qed
    then obtain j where
      "j < length qs" "walk (i + 1) ?c weight qs = Some (i + 1 + j, qs ! j)" by blast
    with False have "Suc j < length (q # qs)"
      "walk i current weight (q # qs) = Some (i + Suc j, (q # qs) ! Suc j)" by simp_all
    then show ?thesis by blast
  qed
qed

text \<open>
  C4. For a non-empty registry whose weights are positive and whose \<open>totalWeight\<close> is
  their sum (as integers, so nothing has overflowed), and for a non-negative value of the
  random source, the draw lies in the interval from 0 to \<open>totalWeight\<close> (excluded), the
  walk selects an entry of the registry and \<open>Query\<close> calls its generator: the panic
  after the loop is not reached.
\<close>

theorem Query_selects:
  assumes nonempty: "queries g \<noteq> []"
    and positive: "\<forall>q \<in> set (queries g). 0 <s Weight q"
    and total: "sint (totalWeight g) = (\<Sum>q\<leftarrow>queries g. sint (Weight q))"
    and nonneg: "0 \<le>s fst (RandInt64 s)"
  shows "0 \<le>s rem64 (fst (RandInt64 s)) (totalWeight g)
       \<and> rem64 (fst (RandInt64 s)) (totalWeight g) <s totalWeight g
       \<and> (\<exists>i < length (queries g).
            walk 0 0 (rem64 (fst (RandInt64 s)) (totalWeight g)) (queries g)
              = Some (i, queries g ! i)
          \<and> Query g w c s =
              (case Generate (queries g ! i) of
                 None \<Rightarrow> Panic NilDereference
               | Some generate \<Rightarrow> Return (generate w c (snd (RandInt64 s)))))
       \<and> Query g w c s \<noteq> Panic OffByOne"
proof -
  let ?r = "fst (RandInt64 s)"
  let ?d = "rem64 ?r (totalWeight g)"
  have pos: "\<forall>q \<in> set (queries g). 0 < sint (Weight q)"
    using positive by (simp add: word_sless_alt)
  obtain q qs where qs: "queries g = q # qs" using nonempty by (cases "queries g") auto
  have "0 \<le> (\<Sum>q\<leftarrow>qs. sint (Weight q))" using pos qs by (intro sum_list_nonneg) auto
  moreover have "0 < sint (Weight q)" using pos qs by simp
  ultimately have T: "0 < sint (totalWeight g)" using total qs by simp
  then have T0: "totalWeight g \<noteq> 0" by auto
  have r: "0 \<le> sint ?r" using nonneg by (simp add: word_sle_eq)
  have d: "sint ?d = sint ?r mod sint (totalWeight g)" using r T by (rule sint_rem64)
  then have d0: "0 \<le> sint ?d" and dT: "sint ?d < sint (totalWeight g)" using T by simp_all
  have "(\<Sum>q\<leftarrow>queries g. sint (Weight q)) < 2 ^ 63"
    using total [symmetric] sint_lt [of "totalWeight g"] by simp
  with pos d0 dT total
  have "\<exists>j < length (queries g). walk 0 0 ?d (queries g) = Some (0 + j, queries g ! j)"
    by (intro walk_finds) simp_all
  then obtain i where
    i: "i < length (queries g)" "walk 0 0 ?d (queries g) = Some (i, queries g ! i)"
    by auto
  have Q: "Query g w c s =
      (case Generate (queries g ! i) of
         None \<Rightarrow> Panic NilDereference
       | Some generate \<Rightarrow> Return (generate w c (snd (RandInt64 s))))"
    using nonempty T0 i(2) by (simp add: Query_def split_beta Let_def)
  then have "Query g w c s \<noteq> Panic OffByOne" by (simp split: option.splits)
  with d0 dT i Q show ?thesis by (auto simp add: word_sle_eq word_sless_alt)
qed

theorem Query_selects_witness:
  "queries registryAB \<noteq> []
   \<and> list_all (\<lambda>q. 0 <s Weight q) (queries registryAB)
   \<and> sint (totalWeight registryAB) = (\<Sum>q\<leftarrow>queries registryAB. sint (Weight q))
   \<and> 0 \<le>s fst (RandInt64 countingSrc)
   \<and> rem64 (fst (RandInt64 countingSrc)) (totalWeight registryAB) <s totalWeight registryAB
   \<and> Query registryAB [] () countingSrc \<noteq> Panic OffByOne"
proof -
  have h1: "queries registryAB \<noteq> []" by (simp add: registryAB_def)
  have h2: "\<forall>q \<in> set (queries registryAB). 0 <s Weight q"
    by (simp add: registryAB_def entry_def word_sless_alt)
  have h3: "sint (totalWeight registryAB) = (\<Sum>q\<leftarrow>queries registryAB. sint (Weight q))"
    by (simp add: registryAB_def entry_def)
  have h4: "0 \<le>s fst (RandInt64 countingSrc)"
    by (simp add: RandInt64_def countingSrc_def)
  from Query_selects [OF h1 h2 h3 h4, of "[]" "()"] h1 h2 h3 h4
  show ?thesis by (simp add: list_all_iff)
qed

text \<open>
  C6. \<open>Query\<close> on a registry without entries returns the error "no query generators
  available", with the writer and the random source as they were: nothing is written and
  no value is drawn. (\<open>Query\<close> has no assignment to the registry.)
\<close>

theorem Query_empty:
  "queries g = [] \<Longrightarrow> Query g w c s = Return (Some NoGenerators, w, s)"
  by (simp add: Query_def)

theorem Query_empty_witness:
  "queries (emptyGenerator :: unit generator) = []
   \<and> Query emptyGenerator ''buffered'' () countingSrc
       = Return (Some NoGenerators, ''buffered'', countingSrc)"
proof -
  have h: "queries (emptyGenerator :: unit generator) = []" by (simp add: emptyGenerator_def)
  from Query_empty [OF h] h show ?thesis by simp
qed

text \<open>
  A draw equal to the cumulative weight selects the entry being accumulated: the first
  entry is selected by the draws from 0 to its weight, both included.
\<close>

lemma walk_first_inclusive:
  "weight \<le>s Weight q \<Longrightarrow> walk i 0 weight (q # qs) = Some (i, q)"
  by simp

text \<open>
  On the registry of \<open>B\<close> (300) and \<open>A\<close> (100) the draw 300 still selects \<open>B\<close>: 301
  of the 400 draws select \<open>B\<close>, and 99 select \<open>A\<close>.
\<close>

lemma walk_registryAB_boundary:
  "map (\<lambda>draw. map_option fst (walk 0 0 draw (queries registryAB))) [0, 299, 300, 301, 399]
   = [Some 0, Some 0, Some 0, Some 1, Some 1]"
  by (simp add: registryAB_def entry_def word_sle_eq)

lemmas run_defs =
  Query_def RandInt64_def rem64_def countingSrc_def world0_def entry_def writeMethod_def
  word_sle_eq word_sless_alt signed_modulo_int_def query_def worker_iteration_def

text \<open>
  C2. The specification: entry \<open>i\<close> is selected for exactly \<open>w\<^sub>i\<close> of the \<open>T\<close> draw
  values. The code on the registry of two entries of weight 1 (\<open>T = 2\<close>): both draw
  values, 0 and 1, select the first entry, and two calls of \<open>Query\<close> that draw 0 and
  then 1 both write the request of \<open>A\<close>; the second entry is selected by no draw.
\<close>

theorem Query_selection_off_by_one:
  "totalWeight registry11 = 2
   \<and> map (\<lambda>draw. map_option fst (walk 0 0 draw (queries registry11))) [0, 1]
       = [Some 0, Some 0]
   \<and> Query registry11 [] () countingSrc = Return (None, ''A'', countingSrc\<lparr>drawn := 1\<rparr>)
   \<and> Query registry11 [] () (countingSrc\<lparr>drawn := 1\<rparr>)
       = Return (None, ''A'', countingSrc\<lparr>drawn := 2\<rparr>)"
  by (simp add: registry11_def run_defs)

section \<open>Sending a request\<close>

text \<open>
  Whenever \<open>query\<close> returns, it has handed the request to \<open>http.Post\<close> and has
  incremented the counter once.
\<close>

lemma query_Return:
  assumes "query p endpoint queryBuf wd = Return wd'"
  shows "counter wd' = counter wd + 1 \<and> posted wd' = posted wd @ [(endpoint, queryBuf)]"
  using assms by (auto simp add: query_def Let_def split: prod.splits option.splits)

lemma query_success:
  "query (resp, None) endpoint queryBuf wd =
     Return (wd\<lparr>posted := posted wd @ [(endpoint, queryBuf)], counter := counter wd + 1\<rparr>)"
  by (simp add: query_def)

text \<open>An error that comes with a response is logged, and the counter is incremented.\<close>

lemma query_error_with_response:
  "query (Some r, Some e) endpoint queryBuf wd =
     Return (wd\<lparr>posted := posted wd @ [(endpoint, queryBuf)],
               logged := logged wd @ [SendError e (StatusCode r)], counter := counter wd + 1\<rparr>)"
  by (simp add: query_def)

text \<open>An error that comes without a response ends in a panic, before the counter.\<close>

lemma query_error_nil_response:
  "query (None, Some e) endpoint queryBuf wd = Panic NilDereference"
  by (simp add: query_def)

lemma worker_iteration_send_failure:
  assumes "sel env \<noteq> CtxDone"
    and "Query gen buf (case sel env of Recv c \<Rightarrow> c | _ \<Rightarrow> state) (rand wd)
         = Return (None, buf', rs)"
    and "post env = (None, Some e)"
  shows "worker_iteration options gen env buf state wd = ProcessPanic NilDereference"
  using assms by (cases "sel env") (simp_all add: worker_iteration_def query_def)

text \<open>
  C5. The specification: the counter is incremented once for every dispatch attempt,
  whether the send succeeds or fails. The code when the connection is refused:
  \<open>query\<close> panics at \<open>resp.StatusCode\<close>, and \<open>atomic.AddInt64\<close> is not reached.
\<close>

theorem query_send_failure_skips_counter:
  "query refused (Web3Endpoint options0) ''A'' world0 = Panic NilDereference"
  by (simp add: query_def refused_def)

section \<open>The worker's loop\<close>

text \<open>
  C1. The specification: when the send of a generated request fails, the worker logs the
  error and continues its loop. The code when the connection is refused: the pass
  through the loop ends in a nil-pointer panic, which ends the process.
\<close>

theorem worker_send_failure_panics:
  "worker_iteration options0 registryAB \<lparr>sel = Default, post = refused\<rparr> [] () world0
   = ProcessPanic NilDereference"
  by (simp add: registryAB_def refused_def run_defs)

text \<open>
  C7. When \<open>Query\<close> returns \<open>io.EOF\<close> to a worker, the worker's goroutine returns: it
  sends nothing more, whatever inputs follow, and the process is neither exited nor
  panicked. When \<open>Query\<close> returns another error, the process exits with code 2.
\<close>

theorem worker_stops_on_EOF_exits_on_error:
  assumes "sel env \<noteq> CtxDone"
    and "Query gen buf (case sel env of Recv c \<Rightarrow> c | _ \<Rightarrow> state) (rand wd)
         = Return (Some e, buf', rs)"
  shows "(e = EOF \<longrightarrow>
            (\<exists>wd'. worker_loop options gen (env # envs) buf state wd = WorkerReturn wd'
                  \<and> posted wd' = posted wd \<and> counter wd' = counter wd))
       \<and> (e \<noteq> EOF \<longrightarrow>
            (\<exists>wd'. worker_loop options gen (env # envs) buf state wd = ProcessExit 2 wd'
                  \<and> posted wd' = posted wd \<and> counter wd' = counter wd))"
  using assms by (cases "sel env") (simp_all add: worker_iteration_def)

theorem worker_stops_on_EOF_exits_on_error_witness:
  "(\<exists>wd'. worker_loop options0 registryEOF
            [\<lparr>sel = Default, post = ok200\<rparr>, \<lparr>sel = Default, post = ok200\<rparr>] [] () world0
          = WorkerReturn wd'
        \<and> posted wd' = posted world0 \<and> counter wd' = counter world0)
   \<and> (\<exists>wd'. worker_loop options0 registryFailing
            [\<lparr>sel = Default, post = ok200\<rparr>, \<lparr>sel = Default, post = ok200\<rparr>] [] () world0
          = ProcessExit 2 wd'
        \<and> posted wd' = posted world0 \<and> counter wd' = counter world0)"
proof -
  let ?env = "\<lparr>sel = Default, post = ok200\<rparr> :: unit worker_env"
  have s: "sel ?env \<noteq> CtxDone" by simp
  have q1: "Query registryEOF [] (case sel ?env of Recv c \<Rightarrow> c | _ \<Rightarrow> ()) (rand world0)
      = Return (Some EOF, [], countingSrc\<lparr>drawn := 1\<rparr>)"
    by (simp add: registryEOF_def eofGenerator_def run_defs)
  have q2: "Query registryFailing [] (case sel ?env of Recv c \<Rightarrow> c | _ \<Rightarrow> ()) (rand world0)
      = Return (Some (OtherError ''bad request''), [], countingSrc\<lparr>drawn := 1\<rparr>)"
    by (simp add: registryFailing_def failingGenerator_def run_defs)
  from worker_stops_on_EOF_exits_on_error [OF s q1, of options0 "[?env]"]
    worker_stops_on_EOF_exits_on_error [OF s q2, of options0 "[?env]"]
  show ?thesis by simp
qed

text \<open>The only field of the options that a pass through the loop reads is the endpoint.\<close>

lemma worker_iteration_RateLimit:
  "worker_iteration (options\<lparr>RateLimit := r\<rparr>) gen env buf state wd
   = worker_iteration options gen env buf state wd"
proof -
  have e: "Web3Endpoint (options\<lparr>RateLimit := r\<rparr>) = Web3Endpoint options" by simp
  show ?thesis unfolding worker_iteration_def e by (rule refl)
qed

text \<open>
  C9. The rate limit of the options has no effect on the worker's loop: with any other
  value of \<open>RateLimit\<close>, the loop ends in the same way with the same world, so with the
  same requests generated and sent.
\<close>

theorem RateLimit_ignored:
  "worker_loop (options\<lparr>RateLimit := r\<rparr>) gen envs buf state wd
   = worker_loop options gen envs buf state wd"
  by (induction envs arbitrary: buf state wd)
    (simp_all add: worker_iteration_RateLimit split: worker_step.splits)

theorem RateLimit_ignored_witness:
  "worker_loop (options0\<lparr>RateLimit := 1000\<rparr>) registryAB [\<lparr>sel = Default, post = ok200\<rparr>]
     [] () world0
   = worker_loop options0 registryAB [\<lparr>sel = Default, post = ok200\<rparr>] [] () world0
   \<and> RateLimit (options0\<lparr>RateLimit := 1000\<rparr>) \<noteq> RateLimit options0"
  using RateLimit_ignored [where options = options0 and r = 1000 and gen = registryAB
      and envs = "[\<lparr>sel = Default, post = ok200\<rparr>]" and buf = "[]" and state = "()"
      and wd = world0]
  by (simp add: options0_def)

end
